theory Spec2Isabelle
  imports Main "HOL-Library.Sublist"
begin

section \<open>Python strings\<close>

text \<open>
  The script \<^verbatim>\<open>get_game_descriptions.py\<close> works on Python \<^verbatim>\<open>str\<close> values: sequences of
  Unicode code points. A string is modelled as the list of its code points, so that
  \<open>length\<close> counts what Python's \<^verbatim>\<open>len\<close> counts. String literals of the script are written
  with \<open>lit\<close>.
\<close>

type_synonym str = "nat list"

definition lit :: "string \<Rightarrow> str" where
  "lit s = map of_char s"

datatype error = IndexError | ValueError | AssertionError str

text \<open>
  \<^verbatim>\<open>s.find(sub)\<close>: the lowest index at which \<open>sub\<close> occurs in \<open>s\<close>, if any. The searches of
  \<^verbatim>\<open>index\<close>, \<^verbatim>\<open>split\<close>, \<^verbatim>\<open>replace\<close> and \<^verbatim>\<open>in\<close> are all this one.
\<close>

fun py_find :: "str \<Rightarrow> str \<Rightarrow> nat option" where
  "py_find [] sub = (if sub = [] then Some 0 else None)"
| "py_find (c # cs) sub =
     (if prefix sub (c # cs) then Some 0 else map_option Suc (py_find cs sub))"

text \<open>\<^verbatim>\<open>sub in s\<close>.\<close>

definition py_in :: "str \<Rightarrow> str \<Rightarrow> bool" where
  "py_in sub s = (py_find s sub \<noteq> None)"

text \<open>
  \<^verbatim>\<open>s.index(sub, start)\<close> with \<open>start \<ge> 0\<close>: the lowest index not below \<open>start\<close> at which
  \<open>sub\<close> occurs; \<^verbatim>\<open>ValueError\<close> when there is none.
\<close>

definition py_index :: "str \<Rightarrow> str \<Rightarrow> nat \<Rightarrow> error + nat" where
  "py_index s sub start =
     (if length s < start then Inl ValueError
      else case py_find (drop start s) sub of
             None \<Rightarrow> Inl ValueError
           | Some i \<Rightarrow> Inr (start + i))"

text \<open>\<^verbatim>\<open>xs[i]\<close> with \<open>i \<ge> 0\<close>: \<^verbatim>\<open>IndexError\<close> out of range.\<close>

definition py_getitem :: "'a list \<Rightarrow> nat \<Rightarrow> error + 'a" where
  "py_getitem xs i = (if i < length xs then Inr (xs ! i) else Inl IndexError)"

text \<open>\<^verbatim>\<open>s[a:b]\<close> with \<open>a, b \<ge> 0\<close>; the slice is empty when \<open>b \<le> a\<close>.\<close>

definition py_slice :: "'a list \<Rightarrow> nat \<Rightarrow> nat \<Rightarrow> 'a list" where
  "py_slice s a b = drop a (take b s)"

lemma py_find_bound: "py_find s sub = Some i \<Longrightarrow> i + length sub \<le> length s"
proof (induction s arbitrary: i)
  case Nil
  then show ?case by (simp split: if_splits)
next
  case (Cons c cs)
  show ?case
  proof (cases "prefix sub (c # cs)")
    case True
    with Cons.prems have "i = 0" by simp
    with prefix_length_le [OF True] show ?thesis by simp
  next
    case False
    with Cons.prems obtain k where "py_find cs sub = Some k" "i = Suc k" by auto
    with Cons.IH show ?thesis by fastforce
  qed
qed

text \<open>
  \<^verbatim>\<open>s.split(sep)\<close> for a separator that is not empty: the pieces between the successive
  occurrences of \<open>sep\<close>, found from left to right, each search starting after the previous
  occurrence. Both separators of the script are literals that are not empty; Python raises
  \<^verbatim>\<open>ValueError\<close> for an empty separator, which the script cannot reach, and the model
  returns \<open>[s]\<close> there.
\<close>

function py_split :: "str \<Rightarrow> str \<Rightarrow> str list" where
  "py_split s sep =
     (case py_find s sep of
        None \<Rightarrow> [s]
      | Some i \<Rightarrow>
          if sep = [] then [s]
          else take i s # py_split (drop (i + length sep) s) sep)"
  by pat_completeness auto
termination
proof (relation "measure (\<lambda>(s, sep). length s)")
  show "wf (measure (\<lambda>(s, sep). length s))" by simp
next
  fix s sep :: str and i :: nat
  assume found: "py_find s sep = Some i" and nonempty: "sep \<noteq> []"
  have "i + length sep \<le> length s" using found by (rule py_find_bound)
  moreover have "0 < length sep" using nonempty by simp
  ultimately have "length (drop (i + length sep) s) < length s" by (simp; arith)
  then show "((drop (i + length sep) s, sep), (s, sep)) \<in> measure (\<lambda>(s, sep). length s)"
    by simp
qed

text \<open>
  \<^verbatim>\<open>s.replace(old, new)\<close> for an \<open>old\<close> that is not empty: every occurrence of \<open>old\<close>, found
  from left to right without overlap, is replaced by \<open>new\<close>. Both calls of the script have a
  literal \<open>old\<close> that is not empty; the model returns \<open>s\<close> for an empty \<open>old\<close>, which the
  script cannot reach.
\<close>

function py_replace :: "str \<Rightarrow> str \<Rightarrow> str \<Rightarrow> str" where
  "py_replace s old new =
     (case py_find s old of
        None \<Rightarrow> s
      | Some i \<Rightarrow>
          if old = [] then s
          else take i s @ new @ py_replace (drop (i + length old) s) old new)"
  by pat_completeness auto
termination
proof (relation "measure (\<lambda>(s, old, new). length s)")
  show "wf (measure (\<lambda>(s, old, new). length s))" by simp
next
  fix s old new :: str and i :: nat
  assume found: "py_find s old = Some i" and nonempty: "old \<noteq> []"
  have "i + length old \<le> length s" using found by (rule py_find_bound)
  moreover have "0 < length old" using nonempty by simp
  ultimately have "length (drop (i + length old) s) < length s" by (simp; arith)
  then show "((drop (i + length old) s, old, new), (s, old, new))
      \<in> measure (\<lambda>(s, old, new). length s)"
    by simp
qed

declare py_split.simps [simp del] py_replace.simps [simp del]

text \<open>
  \<^verbatim>\<open>c.isspace()\<close> for one code point, as CPython's \<^verbatim>\<open>_PyUnicode_IsWhitespace\<close> lists them:
  the ASCII controls 9 to 13 and 28 to 31, the space, and the Unicode separators.
\<close>

definition py_isspace :: "nat \<Rightarrow> bool" where
  "py_isspace c =
     ((9 \<le> c \<and> c \<le> 13) \<or> (28 \<le> c \<and> c \<le> 32) \<or> c = 0x85 \<or> c = 0xA0 \<or> c = 0x1680
      \<or> (0x2000 \<le> c \<and> c \<le> 0x200A) \<or> c = 0x2028 \<or> c = 0x2029 \<or> c = 0x202F
      \<or> c = 0x205F \<or> c = 0x3000)"

text \<open>\<^verbatim>\<open>s.rstrip()\<close>: the whitespace at the end of \<open>s\<close> is removed.\<close>

definition py_rstrip :: "str \<Rightarrow> str" where
  "py_rstrip s = rev (dropWhile py_isspace (rev s))"

text \<open>\<^verbatim>\<open>print(x, file=f)\<close>: the text and a newline are appended to the contents of the file.\<close>

definition newline :: nat where
  "newline = 10"

definition py_print :: "str \<Rightarrow> str \<Rightarrow> str" where
  "py_print x f = f @ x @ [newline]"


section \<open>The script\<close>

definition span_sep :: str where
  \<open>span_sep = lit ''<span class="puzzle">''\<close>

definition tr_sep :: str where
  "tr_sep = lit ''<tr>''"

definition gt :: str where
  "gt = lit ''>''"

definition lt :: str where
  "lt = lit ''<''"

definition td_close :: str where
  "td_close = lit ''</td>''"

definition code_gt :: str where
  "code_gt = lit ''<code>&gt;</code>''"

definition dquote :: str where
  \<open>dquote = lit ''"''\<close>

definition header :: str where
  "header = lit ''NSString *GameDescriptions[][2] = {''"

definition footer :: str where
  "footer = lit ''};''"

text \<open>
  \<^verbatim>\<open>'    {{@"{}", @"{}"}},'.format(name, desc)\<close>: the doubled braces are literal braces and the
  two fields are the strings as they are.
\<close>

definition format_entry :: "str \<Rightarrow> str \<Rightarrow> str" where
  \<open>format_entry name desc = lit ''    {@"'' @ name @ lit ''", @"'' @ desc @ lit ''"},''\<close>

text \<open>
  Line 9: \<^verbatim>\<open>name = r[1][r[1].index(">")+1:r[1].index("<", 1)]\<close>.
\<close>

definition extract_name :: "str list \<Rightarrow> error + str" where
  "extract_name r =
     (case py_getitem r 1 of Inl e \<Rightarrow> Inl e | Inr r1 \<Rightarrow>
      case py_index r1 gt 0 of Inl e \<Rightarrow> Inl e | Inr i \<Rightarrow>
      case py_index r1 lt 1 of Inl e \<Rightarrow> Inl e | Inr j \<Rightarrow>
      Inr (py_slice r1 (i + 1) j))"

text \<open>
  Line 10, the slice: \<^verbatim>\<open>r[4][r[4].index(">")+1:r[4].index("</td>", 2)]\<close>.
\<close>

definition raw_desc :: "str list \<Rightarrow> error + str" where
  "raw_desc r =
     (case py_getitem r 4 of Inl e \<Rightarrow> Inl e | Inr r4 \<Rightarrow>
      case py_index r4 gt 0 of Inl e \<Rightarrow> Inl e | Inr i \<Rightarrow>
      case py_index r4 td_close 2 of Inl e \<Rightarrow> Inl e | Inr j \<Rightarrow>
      Inr (py_slice r4 (i + 1) j))"

text \<open>
  Lines 10 and 11, the calls on the slice:
  \<^verbatim>\<open>.replace("\n", " ").rstrip()\<close> and then \<^verbatim>\<open>desc.replace("<code>&gt;</code>", ">")\<close>.
\<close>

definition extract_desc :: "str list \<Rightarrow> error + str" where
  "extract_desc r =
     (case raw_desc r of Inl e \<Rightarrow> Inl e | Inr raw \<Rightarrow>
      let desc = py_rstrip (py_replace raw [newline] (lit '' ''));
          desc = py_replace desc code_gt gt
      in Inr desc)"

text \<open>
  Lines 12 and 13: \<^verbatim>\<open>assert "<" not in desc, desc\<close> and \<^verbatim>\<open>assert '"' not in desc, desc\<close>.
  The interpreter is taken to run with assertions enabled, as it does by default.
\<close>

definition check_desc :: "str \<Rightarrow> error + unit" where
  "check_desc desc =
     (if py_in lt desc then Inl (AssertionError desc)
      else if py_in dquote desc then Inl (AssertionError desc)
      else Inr ())"

text \<open>Lines 8 to 13 for one element \<open>p\<close> of \<^verbatim>\<open>puzzles[1:]\<close>.\<close>

definition process_puzzle :: "str \<Rightarrow> error + (str \<times> str)" where
  "process_puzzle p =
     (let r = py_split p tr_sep in
      case extract_name r of Inl e \<Rightarrow> Inl e | Inr name \<Rightarrow>
      case extract_desc r of Inl e \<Rightarrow> Inl e | Inr desc \<Rightarrow>
      case check_desc desc of Inl e \<Rightarrow> Inl e | Inr u \<Rightarrow>
      Inr (name, desc))"

text \<open>
  A run ends normally or with an uncaught exception. The state of a run is the contents
  of the file \<^verbatim>\<open>descriptions.h\<close>: opening it for writing empties it, every
  \<^verbatim>\<open>print\<close> appends to it, and leaving the \<^verbatim>\<open>with\<close> block closes it, also when an
  exception leaves the block, so that what was printed before the exception is in the file.
  The contents are kept as text; the file is taken to be written in an encoding that has
  every code point of the page, as UTF-8 has, so that no \<^verbatim>\<open>print\<close> fails.
\<close>

datatype outcome = Completed | Raised error

text \<open>Lines 7 to 14: the loop over \<^verbatim>\<open>puzzles[1:]\<close>.\<close>

fun loop :: "str list \<Rightarrow> str \<Rightarrow> outcome \<times> str" where
  "loop [] f = (Completed, f)"
| "loop (p # ps) f =
     (case process_puzzle p of
        Inl e \<Rightarrow> (Raised e, f)
      | Inr (name, desc) \<Rightarrow> loop ps (py_print (format_entry name desc) f))"

text \<open>
  Lines 4 to 15, from the decoded text of the page. The fetch and the decoding of line 3
  come before and are not part of the model.
\<close>

definition script :: "str \<Rightarrow> outcome \<times> str" where
  "script page =
     (let puzzles = py_split page span_sep;
          f = py_print header []
      in case loop (drop 1 puzzles) f of
           (Raised e, f') \<Rightarrow> (Raised e, f')
         | (Completed, f') \<Rightarrow> (Completed, py_print footer f'))"


text \<open>
  Line 5, \<^verbatim>\<open>open("descriptions.h", "w")\<close>: whatever the file held before the run is
  discarded.
\<close>

definition py_open_w :: "str \<Rightarrow> str" where
  "py_open_w old = []"

text \<open>
  Lines 4 to 15 when \<^verbatim>\<open>descriptions.h\<close> holds \<open>old\<close> before the run, for instance what an
  earlier run left there.
\<close>

definition script_on :: "str \<Rightarrow> str \<Rightarrow> outcome \<times> str" where
  "script_on old page =
     (let puzzles = py_split page span_sep;
          f = py_open_w old;
          f = py_print header f
      in case loop (drop 1 puzzles) f of
           (Raised e, f') \<Rightarrow> (Raised e, f')
         | (Completed, f') \<Rightarrow> (Completed, py_print footer f'))"


section \<open>What a run does, in the words of the specification\<close>

text \<open>
  The entries of a run: the pairs \<open>(name, desc)\<close> of the successive calls of \<^verbatim>\<open>print\<close> at
  line 14, in order. The loop stops at the first element that raises.
\<close>

fun entries :: "str list \<Rightarrow> (str \<times> str) list" where
  "entries [] = []"
| "entries (p # ps) =
     (case process_puzzle p of Inl e \<Rightarrow> [] | Inr nd \<Rightarrow> nd # entries ps)"

definition written_pairs :: "str \<Rightarrow> (str \<times> str) list" where
  "written_pairs page = entries (drop 1 (py_split page span_sep))"

text \<open>What one call of \<^verbatim>\<open>print\<close> at line 14 appends to the file.\<close>

definition entry_line :: "str \<times> str \<Rightarrow> str" where
  "entry_line nd = format_entry (fst nd) (snd nd) @ [newline]"

text \<open>
  The slices of a run: the values of the slice of line 10, before the calls of
  \<^verbatim>\<open>replace\<close> and \<^verbatim>\<open>rstrip\<close>, in order, for the iterations that get that far. The run
  goes on to the next element when the iteration raises nothing.
\<close>

fun raw_descs :: "str list \<Rightarrow> str list" where
  "raw_descs [] = []"
| "raw_descs (p # ps) =
     (let r = py_split p tr_sep in
      case extract_name r of Inl e \<Rightarrow> [] | Inr name \<Rightarrow>
      case raw_desc r of Inl e \<Rightarrow> [] | Inr raw \<Rightarrow>
      raw # (case process_puzzle p of Inl e \<Rightarrow> [] | Inr nd \<Rightarrow> raw_descs ps))"

definition extracted_raw_descs :: "str \<Rightarrow> str list" where
  "extracted_raw_descs page = raw_descs (drop 1 (py_split page span_sep))"

text \<open>A text contains a character.\<close>

definition contains_char :: "str \<Rightarrow> char \<Rightarrow> bool" where
  "contains_char s c = (of_char c \<in> set s)"

text \<open>
  The lines of a text: the pieces that end at each newline, and what follows the last
  newline when it is not empty.
\<close>

fun lines_from :: "str \<Rightarrow> str \<Rightarrow> str list" where
  "lines_from cur [] = (if cur = [] then [] else [cur])"
| "lines_from cur (c # cs) =
     (if c = newline then cur # lines_from [] cs else lines_from (cur @ [c]) cs)"

definition file_lines :: "str \<Rightarrow> str list" where
  "file_lines f = lines_from [] f"

text \<open>
  The number of occurrences of \<open>sub\<close> in \<open>s\<close>: the number of positions of \<open>s\<close> at which
  \<open>sub\<close> starts, overlapping or not.
\<close>

fun count_occurrences :: "str \<Rightarrow> str \<Rightarrow> nat" where
  "count_occurrences [] sub = (if sub = [] then 1 else 0)"
| "count_occurrences (c # cs) sub =
     (if prefix sub (c # cs) then 1 else 0) + count_occurrences cs sub"

text \<open>
  The transformation of a description as the specification words it: every newline becomes
  a space, the whitespace at the end is removed, and every occurrence of
  \<^verbatim>\<open><code>&gt;</code>\<close>, read from left to right, becomes \<^verbatim>\<open>>\<close>.
\<close>

definition newlines_to_spaces :: "str \<Rightarrow> str" where
  "newlines_to_spaces s = map (\<lambda>c. if c = newline then 32 else c) s"

fun strip_trailing :: "str \<Rightarrow> str" where
  "strip_trailing [] = []"
| "strip_trailing (c # cs) =
     (case strip_trailing cs of
        [] \<Rightarrow> if py_isspace c then [] else [c]
      | x # xs \<Rightarrow> c # x # xs)"

fun substitute_code_gt :: "str \<Rightarrow> str" where
  "substitute_code_gt [] = []"
| "substitute_code_gt (c # cs) =
     (if prefix code_gt (c # cs) then 62 # substitute_code_gt (drop 16 cs)
      else c # substitute_code_gt cs)"

definition spec_transform :: "str \<Rightarrow> str" where
  "spec_transform raw = substitute_code_gt (strip_trailing (newlines_to_spaces raw))"

text \<open>A text does not end in whitespace.\<close>

definition ends_clean :: "str \<Rightarrow> bool" where
  "ends_clean s = (s = [] \<or> \<not> py_isspace (last s))"

text \<open>
  \<open>i\<close> is the position of the first occurrence of \<open>sub\<close> in \<open>s\<close> that starts at an index
  not below \<open>start\<close>.
\<close>

definition first_at :: "str \<Rightarrow> str \<Rightarrow> nat \<Rightarrow> nat \<Rightarrow> bool" where
  "first_at s sub start i =
     (start \<le> i \<and> i < length s \<and> prefix sub (drop i s)
      \<and> (\<forall>k < i. start \<le> k \<longrightarrow> \<not> prefix sub (drop k s)))"

text \<open>The code points of \<open>s\<close> at the positions strictly between \<open>i\<close> and \<open>j\<close>.\<close>

definition between :: "str \<Rightarrow> nat \<Rightarrow> nat \<Rightarrow> str" where
  "between s i j = map (\<lambda>k. s ! k) [i + 1..<j]"


section \<open>Sample pages\<close>

text \<open>Two puzzles: the first is printed, the description of the second contains \<^verbatim>\<open><\<close>.\<close>

definition page_abort :: str where
  \<open>page_abort = lit ''<span class="puzzle"><tr>>A<<tr><tr><tr>>d</td><span class="puzzle"><tr>>B<<tr><tr><tr>>a<b</td>''\<close>

text \<open>One puzzle whose name holds a double quote.\<close>

definition page_quoted_name :: str where
  \<open>page_quoted_name = lit ''<span class="puzzle"><tr>>a"b<<tr><tr><tr>>d</td>''\<close>

text \<open>One puzzle whose description spans two lines and ends in whitespace.\<close>

definition page_multiline :: str where
  \<open>page_multiline = lit ''<span class="puzzle"><tr>>N<<tr><tr><tr>>x\<newline>y \<newline></td>''\<close>

text \<open>One puzzle whose name holds a newline.\<close>

definition page_newline_name :: str where
  \<open>page_newline_name = lit ''<span class="puzzle"><tr>>A\<newline>B<<tr><tr><tr>>d</td>''\<close>

text \<open>Text before the first marker and two puzzles; the name of the second is a newline.\<close>

definition page_two_puzzles :: str where
  \<open>page_two_puzzles = lit ''top<span class="puzzle"><tr>>A<<tr><tr><tr>>d</td><span class="puzzle"><tr>>\<newline><<tr><tr><tr>>e</td>''\<close>


text \<open>One puzzle whose name row starts with a tag and whose name holds spaces, double quotes and a newline.\<close>

definition page_raw_name :: str where
  \<open>page_raw_name = lit ''<span class="puzzle"><tr><b> "N" \<newline><<tr><tr><tr>>d</td>''\<close>

text \<open>The marker and nothing after it: the one puzzle has no rows.\<close>

definition page_no_rows :: str where
  \<open>page_no_rows = lit ''<span class="puzzle">''\<close>

text \<open>One puzzle whose second piece holds no \<^verbatim>\<open>>\<close>.\<close>

definition page_no_marker :: str where
  \<open>page_no_marker = lit ''<span class="puzzle"><tr>abc''\<close>

text \<open>Text before the first marker and two puzzles with plain names.\<close>

definition page_plain :: str where
  \<open>page_plain = lit ''top<span class="puzzle"><tr>>A<<tr><tr><tr>>d</td><span class="puzzle"><tr>>B<<tr><tr><tr>>e</td>''\<close>

text \<open>One puzzle whose name is two newlines.\<close>

definition page_blank_name :: str where
  \<open>page_blank_name = lit ''<span class="puzzle"><tr>>\<newline>\<newline><<tr><tr><tr>>d</td>''\<close>

text \<open>
  Two puzzles: the slice of the first holds the markup of \<^verbatim>\<open>>\<close>, which the substitution
  removes; the slice of the second holds double quotes and ends in whitespace.
\<close>

definition page_markup :: str where
  \<open>page_markup = lit ''<span class="puzzle"><tr>>A<<tr><tr><tr>>a <code>&gt;</code> b\<newline></td><span class="puzzle"><tr>>B<<tr><tr><tr>>say "x" \<newline></td>''\<close>

lemmas script_defs = script_def Let_def lit_def span_sep_def tr_sep_def gt_def lt_def td_close_def
  code_gt_def dquote_def header_def footer_def format_entry_def process_puzzle_def extract_name_def
  raw_desc_def extract_desc_def check_desc_def py_in_def py_index_def py_getitem_def py_slice_def
  py_rstrip_def py_isspace_def py_print_def newline_def written_pairs_def entry_line_def
  extracted_raw_descs_def contains_char_def script_on_def py_open_w_def file_lines_def
  py_split.simps py_replace.simps


section \<open>Searching\<close>

lemma py_find_prefix: "py_find s sub = Some i \<Longrightarrow> prefix sub (drop i s)"
proof (induction s arbitrary: i)
  case Nil
  then show ?case by (simp split: if_splits)
next
  case (Cons c cs)
  then show ?case by (auto split: if_splits)
qed

lemma py_find_first: "py_find s sub = Some i \<Longrightarrow> k < i \<Longrightarrow> \<not> prefix sub (drop k s)"
proof (induction s arbitrary: i k)
  case Nil
  then show ?case by (simp split: if_splits)
next
  case (Cons c cs)
  show ?case
  proof (cases k)
    case 0
    with Cons.prems show ?thesis by (auto split: if_splits)
  next
    case (Suc k')
    with Cons.prems Cons.IH show ?thesis by (auto split: if_splits)
  qed
qed

lemma py_find_None: "py_find s sub = None \<Longrightarrow> \<not> prefix sub (drop k s)"
proof (induction s arbitrary: k)
  case Nil
  then show ?case by (simp split: if_splits)
next
  case (Cons c cs)
  show ?case
  proof (cases k)
    case 0
    with Cons.prems show ?thesis by (auto split: if_splits)
  next
    case (Suc k')
    with Cons.prems Cons.IH show ?thesis by (auto split: if_splits)
  qed
qed

lemma py_find_single_None: "(py_find s [c] = None) = (c \<notin> set s)"
  by (induction s) auto

lemma py_find_single_Some:
  "py_find s [c] = Some i \<Longrightarrow> i < length s \<and> s ! i = c \<and> c \<notin> set (take i s)"
proof (induction s arbitrary: i)
  case Nil
  then show ?case by simp
next
  case (Cons a s)
  then show ?case by (auto split: if_splits)
qed

lemma py_in_single: "py_in [c] s = (c \<in> set s)"
  by (simp add: py_in_def py_find_single_None)

lemma py_find_split:
  assumes "py_find s sub = Some i"
  shows "s = take i s @ sub @ drop (i + length sub) s"
proof -
  from py_find_prefix [OF assms] obtain zs where zs: "drop i s = sub @ zs"
    by (auto simp: prefix_def)
  then have "drop (length sub) (drop i s) = zs" by simp
  then have "drop (i + length sub) s = zs" by (simp add: add.commute)
  with zs have "take i s @ sub @ drop (i + length sub) s = take i s @ drop i s" by simp
  then show ?thesis by simp
qed


section \<open>The loop and the file\<close>

lemma loop_file: "snd (loop ps f) = f @ concat (map entry_line (entries ps))"
proof (induction ps arbitrary: f)
  case Nil
  then show ?case by simp
next
  case (Cons p ps)
  show ?case
  proof (cases "process_puzzle p")
    case (Inl e)
    then show ?thesis by simp
  next
    case (Inr nd)
    obtain name desc where nd: "nd = (name, desc)" by (cases nd)
    with Inr Cons.IH [of "py_print (format_entry name desc) f"] show ?thesis
      by (simp add: py_print_def entry_line_def)
  qed
qed

lemma loop_entries_prefix:
  "map process_puzzle (take (length (entries ps)) ps) = map Inr (entries ps)"
proof (induction ps)
  case Nil
  then show ?case by simp
next
  case (Cons p ps)
  then show ?case by (cases "process_puzzle p") simp_all
qed

lemma entries_length_le: "length (entries ps) \<le> length ps"
proof (induction ps)
  case Nil
  then show ?case by simp
next
  case (Cons p ps)
  then show ?case by (cases "process_puzzle p") simp_all
qed

lemma loop_completed: "(fst (loop ps f) = Completed) = (length (entries ps) = length ps)"
proof (induction ps arbitrary: f)
  case Nil
  then show ?case by simp
next
  case (Cons p ps)
  show ?case
  proof (cases "process_puzzle p")
    case (Inl e)
    then show ?thesis by simp
  next
    case (Inr nd)
    obtain name desc where nd: "nd = (name, desc)" by (cases nd)
    with Inr Cons.IH [of "py_print (format_entry name desc) f"] show ?thesis by simp
  qed
qed

lemma loop_raised:
  "fst (loop ps f) = Raised e \<Longrightarrow>
     length (entries ps) < length ps \<and> process_puzzle (ps ! length (entries ps)) = Inl e"
proof (induction ps arbitrary: f)
  case Nil
  then show ?case by simp
next
  case (Cons p ps)
  show ?case
  proof (cases "process_puzzle p")
    case (Inl e')
    with Cons.prems show ?thesis by simp
  next
    case (Inr nd)
    obtain name desc where nd: "nd = (name, desc)" by (cases nd)
    with Inr Cons.prems have "fst (loop ps (py_print (format_entry name desc) f)) = Raised e"
      by simp
    from Cons.IH [OF this] Inr show ?thesis by simp
  qed
qed

lemma script_outcome:
  "fst (script page) = fst (loop (drop 1 (py_split page span_sep)) (py_print header []))"
  by (simp add: script_def Let_def split: prod.splits outcome.splits)

lemma script_file:
  "snd (script page) =
     (if fst (script page) = Completed
      then py_print header [] @ concat (map entry_line (written_pairs page)) @ footer @ [newline]
      else py_print header [] @ concat (map entry_line (written_pairs page)))"
proof -
  let ?ps = "drop 1 (py_split page span_sep)"
  let ?f = "py_print header []"
  obtain out f' where run: "loop ?ps ?f = (out, f')" by (cases "loop ?ps ?f")
  have "f' = snd (loop ?ps ?f)" using run by simp
  then have f': "f' = ?f @ concat (map entry_line (written_pairs page))"
    by (simp add: loop_file written_pairs_def)
  show ?thesis
  proof (cases out)
    case Completed
    with run f' show ?thesis by (simp add: script_def Let_def py_print_def)
  next
    case (Raised e)
    with run f' show ?thesis by (simp add: script_def Let_def)
  qed
qed

section \<open>Replacing, stripping and slicing\<close>

lemma py_replace_None: "py_find s old = None \<Longrightarrow> py_replace s old new = s"
  by (subst py_replace.simps) simp

lemma py_replace_Some:
  "py_find s old = Some i \<Longrightarrow> old \<noteq> [] \<Longrightarrow>
     py_replace s old new = take i s @ new @ py_replace (drop (i + length old) s) old new"
  by (subst py_replace.simps) simp

lemma py_split_None: "py_find s sep = None \<Longrightarrow> py_split s sep = [s]"
  by (subst py_split.simps) simp

lemma py_split_Some:
  "py_find s sep = Some i \<Longrightarrow> sep \<noteq> [] \<Longrightarrow>
     py_split s sep = take i s # py_split (drop (i + length sep) s) sep"
  by (subst py_split.simps) simp

lemma map_subst_absent: "a \<notin> set xs \<Longrightarrow> map (\<lambda>c. if c = a then b else c) xs = xs"
  by (induction xs) auto

lemma py_replace_single:
  "py_replace s [a] [b] = map (\<lambda>c. if c = a then b else c) s"
proof (induction s "[a]" "[b]" rule: py_replace.induct)
  case (1 s)
  show ?case
  proof (cases "py_find s [a]")
    case None
    then have "a \<notin> set s" by (simp add: py_find_single_None)
    then have "map (\<lambda>c. if c = a then b else c) s = s" by (rule map_subst_absent)
    with None show ?thesis by (simp add: py_replace_None)
  next
    case (Some i)
    let ?f = "\<lambda>c. if c = a then b else c"
    from py_find_single_Some [OF Some] have notin: "a \<notin> set (take i s)" by simp
    then have pre: "map ?f (take i s) = take i s" by (rule map_subst_absent)
    from py_find_split [OF Some] have s: "s = take i s @ [a] @ drop (i + 1) s" by simp
    have "map ?f s = map ?f (take i s @ [a] @ drop (i + 1) s)" using s by simp
    also have "\<dots> = take i s @ [b] @ map ?f (drop (i + 1) s)" using pre by simp
    also have "\<dots> = take i s @ [b] @ py_replace (drop (i + 1) s) [a] [b]"
      using "1.hyps" [OF Some] by simp
    also have "\<dots> = py_replace s [a] [b]" using Some by (simp add: py_replace_Some)
    finally show ?thesis by simp
  qed
qed

lemma py_replace_set: "set (py_replace s old new) \<subseteq> set s \<union> set new"
proof (induction s old new rule: py_replace.induct)
  case (1 s old new)
  show ?case
  proof (cases "py_find s old")
    case None
    then show ?thesis by (simp add: py_replace_None)
  next
    case (Some i)
    show ?thesis
    proof (cases "old = []")
      case True
      with Some show ?thesis by (subst py_replace.simps) simp
    next
      case False
      have "set (take i s) \<subseteq> set s" by (rule set_take_subset)
      moreover have "set (drop (i + length old) s) \<subseteq> set s" by (rule set_drop_subset)
      moreover note "1.IH" [OF Some False]
      ultimately show ?thesis using Some False by (auto simp: py_replace_Some)
    qed
  qed
qed


lemma py_rstrip_set: "set (py_rstrip s) \<subseteq> set s"
  using set_dropWhileD [of _ py_isspace "rev s"] by (auto simp: py_rstrip_def)

lemma py_rstrip_ends_clean: "ends_clean (py_rstrip s)"
proof (cases "dropWhile py_isspace (rev s)")
  case Nil
  then show ?thesis by (simp add: ends_clean_def py_rstrip_def)
next
  case (Cons a xs)
  then have "\<not> py_isspace a" using hd_dropWhile [of py_isspace "rev s"] by auto
  with Cons show ?thesis by (simp add: ends_clean_def py_rstrip_def)
qed

lemma py_replace_ends_clean:
  "new \<noteq> [] \<Longrightarrow> \<not> py_isspace (last new) \<Longrightarrow> ends_clean s \<Longrightarrow>
     ends_clean (py_replace s old new)"
proof (induction s old new rule: py_replace.induct)
  case (1 s old new)
  note new = "1.prems"(1,2) and clean = "1.prems"(3)
  show ?case
  proof (cases "py_find s old")
    case None
    with clean show ?thesis by (simp add: py_replace_None)
  next
    case (Some i)
    show ?thesis
    proof (cases "old = []")
      case True
      with Some clean show ?thesis by (subst py_replace.simps) simp
    next
      case False
      let ?rest = "drop (i + length old) s"
      let ?R = "py_replace ?rest old new"
      have "ends_clean ?rest"
      proof (cases "?rest = []")
        case True
        then show ?thesis by (simp add: ends_clean_def)
      next
        case nonempty: False
        then have "last ?rest = last s" "s \<noteq> []" by auto
        with clean show ?thesis by (simp add: ends_clean_def)
      qed
      from "1.IH" [OF Some False new this] have R: "ends_clean ?R" .
      have res: "py_replace s old new = take i s @ new @ ?R"
        using Some False by (rule py_replace_Some)
      show ?thesis
      proof (cases "?R = []")
        case True
        with res have "py_replace s old new = take i s @ new" by simp
        moreover have "last (take i s @ new) = last new" using new(1) by simp
        ultimately show ?thesis using new by (simp add: ends_clean_def)
      next
        case False
        with res R show ?thesis by (simp add: ends_clean_def)
      qed
    qed
  qed
qed

lemma lit_simps:
  "lt = [60]" "gt = [62]" \<open>dquote = [34]\<close> "lit '' '' = [32]" "newline = 10"
  "length code_gt = 17" "length tr_sep = 4" "length span_sep = 21" "length td_close = 5"
  by (simp_all add: lt_def gt_def dquote_def lit_def newline_def code_gt_def tr_sep_def
      span_sep_def td_close_def)

lemma extract_desc_props:
  assumes "extract_desc r = Inr desc"
  shows "newline \<notin> set desc" and "ends_clean desc"
proof -
  from assms obtain raw where raw: "raw_desc r = Inr raw"
    and desc: "desc = py_replace (py_rstrip (py_replace raw [newline] (lit '' ''))) code_gt gt"
    by (auto simp: extract_desc_def Let_def split: sum.splits)
  let ?a = "py_replace raw [newline] (lit '' '')"
  have "newline \<notin> set ?a" by (auto simp: lit_simps py_replace_single)
  then have "newline \<notin> set (py_rstrip ?a)" using py_rstrip_set by blast
  moreover have "newline \<notin> set gt" by (simp add: lit_simps)
  ultimately show "newline \<notin> set desc" using py_replace_set [of "py_rstrip ?a" code_gt gt]
    unfolding desc by blast
  have "gt \<noteq> []" "\<not> py_isspace (last gt)" by (simp_all add: lit_simps py_isspace_def)
  then show "ends_clean desc" unfolding desc
    using py_rstrip_ends_clean by (rule py_replace_ends_clean)
qed

lemma check_desc_props:
  "check_desc desc = Inr u \<Longrightarrow> \<not> py_in lt desc \<and> \<not> py_in dquote desc"
  by (simp add: check_desc_def split: if_splits)

lemma py_index_single:
  assumes "py_index s [c] start = Inr j"
  shows "start \<le> j" "j < length s" "s ! j = c" "c \<notin> set (take (j - start) (drop start s))"
proof -
  from assms obtain i where i: "py_find (drop start s) [c] = Some i" and j: "j = start + i"
    and le: "start \<le> length s"
    by (auto simp: py_index_def split: if_splits option.splits)
  from py_find_single_Some [OF i] j le
  show "start \<le> j" "j < length s" "s ! j = c" "c \<notin> set (take (j - start) (drop start s))"
    by auto
qed

lemma extract_name_no_lt:
  assumes "extract_name r = Inr name"
  shows "\<not> py_in lt name"
proof -
  from assms obtain r1 i j where j: "py_index r1 lt 1 = Inr j"
    and name: "name = py_slice r1 (i + 1) j"
    by (auto simp: extract_name_def split: sum.splits)
  from py_index_single(4) [of r1 60 1 j] j have "60 \<notin> set (take (j - 1) (drop 1 r1))"
    by (simp add: lit_simps)
  moreover have "set name \<subseteq> set (take (j - 1) (drop 1 r1))"
  proof -
    have "name = drop i (drop 1 (take j r1))" by (simp add: name py_slice_def)
    also have "drop 1 (take j r1) = take (j - 1) (drop 1 r1)" by (simp add: drop_take)
    finally have "name = drop i (take (j - 1) (drop 1 r1))" .
    then show ?thesis using set_drop_subset [of i "take (j - 1) (drop 1 r1)"] by simp
  qed
  ultimately show ?thesis by (auto simp: lit_simps py_in_single)
qed

lemma process_puzzle_Inr:
  assumes "process_puzzle p = Inr (name, desc)"
  shows "extract_name (py_split p tr_sep) = Inr name"
    and "extract_desc (py_split p tr_sep) = Inr desc"
    and "check_desc desc = Inr ()"
  using assms by (auto simp: process_puzzle_def Let_def split: sum.splits)

lemma entries_elem: "nd \<in> set (entries ps) \<Longrightarrow> \<exists>p \<in> set ps. process_puzzle p = Inr nd"
proof (induction ps)
  case Nil
  then show ?case by simp
next
  case (Cons p ps)
  then show ?case by (cases "process_puzzle p") auto
qed

lemma written_pair_source:
  assumes "(name, desc) \<in> set (written_pairs page)"
  obtains p where "p \<in> set (drop 1 (py_split page span_sep))" "process_puzzle p = Inr (name, desc)"
  using assms entries_elem unfolding written_pairs_def by blast


section \<open>Aborted runs\<close>

text \<open>
  C3 (as amended). If a run aborts because an assertion fails on some description, the file
  holds the header line followed by the entries of all the puzzles processed before the
  failing one, and no closing line: these are the results of the elements of
  \<^verbatim>\<open>puzzles[1:]\<close> that precede the one on which the assertion fails.
\<close>

theorem assertion_abort_keeps_earlier_entries:
  assumes "fst (script page) = Raised (AssertionError d)"
  shows "snd (script page) = py_print header [] @ concat (map entry_line (written_pairs page))
    \<and> length (written_pairs page) < length (drop 1 (py_split page span_sep))
    \<and> map process_puzzle (take (length (written_pairs page)) (drop 1 (py_split page span_sep)))
        = map Inr (written_pairs page)
    \<and> process_puzzle (drop 1 (py_split page span_sep) ! length (written_pairs page))
        = Inl (AssertionError d)"
proof -
  let ?ps = "drop 1 (py_split page span_sep)"
  from assms have "fst (loop ?ps (py_print header [])) = Raised (AssertionError d)"
    by (simp add: script_outcome)
  from loop_raised [OF this]
  have "length (written_pairs page) < length ?ps"
    and "process_puzzle (?ps ! length (written_pairs page)) = Inl (AssertionError d)"
    by (simp_all add: written_pairs_def)
  moreover have "snd (script page) = py_print header [] @ concat (map entry_line (written_pairs page))"
    using assms by (simp add: script_file)
  moreover have "map process_puzzle (take (length (written_pairs page)) ?ps) = map Inr (written_pairs page)"
    unfolding written_pairs_def by (rule loop_entries_prefix)
  ultimately show ?thesis by simp
qed

theorem assertion_abort_keeps_earlier_entries_witness:
  \<open>fst (script page_abort) = Raised (AssertionError (lit ''a<b''))
   \<and> written_pairs page_abort = [(lit ''A'', lit ''d'')]
   \<and> snd (script page_abort) = py_print header [] @ entry_line (lit ''A'', lit ''d'')\<close>
proof -
  have h: "fst (script page_abort) = Raised (AssertionError (lit ''a<b''))"
    by (simp add: page_abort_def script_defs)
  have w: "written_pairs page_abort = [(lit ''A'', lit ''d'')]"
    by (simp add: page_abort_def script_defs)
  from assertion_abort_keeps_earlier_entries [OF h] h w show ?thesis by simp
qed

text \<open>
  C3 as stated fails: on \<open>page_abort\<close> the assertion fails on the second puzzle and the
  file holds the entry of the first.
\<close>

theorem no_partial_output_counterexample:
  \<open>fst (script page_abort) = Raised (AssertionError (lit ''a<b''))
   \<and> snd (script page_abort) =
       lit ''NSString *GameDescriptions[][2] = {'' @ [newline] @ lit ''    {@"A", @"d"},'' @ [newline]\<close>
  by (simp add: page_abort_def script_defs)


section \<open>Lines\<close>

lemma lines_from_line:
  "newline \<notin> set l \<Longrightarrow> lines_from cur (l @ newline # rest) = (cur @ l) # lines_from [] rest"
  by (induction l arbitrary: cur) auto

lemma lines_from_lines:
  "\<forall>l \<in> set ls. newline \<notin> set l \<Longrightarrow>
     lines_from [] (concat (map (\<lambda>l. l @ [newline]) ls)) = ls"
proof (induction ls)
  case Nil
  then show ?case by simp
next
  case (Cons l ls)
  then have "newline \<notin> set l" by simp
  from lines_from_line [OF this, of "[]" "concat (map (\<lambda>l. l @ [newline]) ls)"] Cons
  show ?case by simp
qed

lemma format_entry_newline:
  "newline \<notin> set name \<Longrightarrow> newline \<notin> set desc \<Longrightarrow> newline \<notin> set (format_entry name desc)"
  by (simp add: format_entry_def lit_def newline_def)

lemma header_footer_newline: "newline \<notin> set header" "newline \<notin> set footer"
  by (simp_all add: header_def footer_def lit_def newline_def)

lemma written_pair_desc:
  assumes "(name, desc) \<in> set (written_pairs page)"
  shows "newline \<notin> set desc" "ends_clean desc" "\<not> py_in lt desc" "\<not> py_in dquote desc"
    "\<not> py_in lt name"
proof -
  from assms obtain p where p: "process_puzzle p = Inr (name, desc)"
    by (rule written_pair_source)
  note parts = process_puzzle_Inr [OF p]
  from extract_desc_props [OF parts(2)] show "newline \<notin> set desc" "ends_clean desc" .
  from check_desc_props [OF parts(3)] show "\<not> py_in lt desc" "\<not> py_in dquote desc" by simp_all
  from extract_name_no_lt [OF parts(1)] show "\<not> py_in lt name" .
qed

section \<open>The written pairs\<close>

text \<open>
  C1 (as amended). For every page, every pair \<open>(name, desc)\<close> written to the file has a
  description that contains neither \<^verbatim>\<open><\<close> nor \<^verbatim>\<open>"\<close> and a name that does not contain
  \<^verbatim>\<open><\<close>. The description is checked by the two assertions; the name ends before the first
  \<^verbatim>\<open><\<close> found from index 1 and is not checked for \<^verbatim>\<open>"\<close>.
\<close>

theorem written_pairs_checked:
  assumes "(name, desc) \<in> set (written_pairs page)"
  shows "\<not> py_in lt name \<and> \<not> py_in lt desc \<and> \<not> py_in dquote desc"
  using written_pair_desc [OF assms] by simp

theorem written_pairs_checked_witness:
  \<open>(lit ''a"b'', lit ''d'') \<in> set (written_pairs page_quoted_name)
   \<and> \<not> py_in lt (lit ''a"b'') \<and> \<not> py_in lt (lit ''d'') \<and> \<not> py_in dquote (lit ''d'')\<close>
proof -
  have h: \<open>(lit ''a"b'', lit ''d'') \<in> set (written_pairs page_quoted_name)\<close>
    by (simp add: page_quoted_name_def script_defs)
  from written_pairs_checked [OF h] h show ?thesis by simp
qed

text \<open>
  C1 as stated fails: on \<open>page_quoted_name\<close> the run completes and the written name holds a
  double quote.
\<close>

theorem quote_in_written_name_counterexample:
  \<open>fst (script page_quoted_name) = Completed
   \<and> written_pairs page_quoted_name = [(lit ''a"b'', lit ''d'')]
   \<and> py_in dquote (lit ''a"b'')
   \<and> snd (script page_quoted_name) =
       lit ''NSString *GameDescriptions[][2] = {'' @ [newline] @ lit ''    {@"a"b", @"d"},'' @ [newline]
       @ lit ''};'' @ [newline]\<close>
  by (simp add: page_quoted_name_def script_defs)

text \<open>
  C9 (as amended). For every page, every written description contains no newline and does
  not end in whitespace; the entry occupies exactly one line of the file when its name
  contains no newline either.
\<close>

theorem written_desc_one_line:
  assumes "(name, desc) \<in> set (written_pairs page)"
  shows "newline \<notin> set desc \<and> ends_clean desc
    \<and> (newline \<notin> set name \<longrightarrow> file_lines (entry_line (name, desc)) = [format_entry name desc])"
proof -
  note d = written_pair_desc(1,2) [OF assms]
  have "file_lines (entry_line (name, desc)) = [format_entry name desc]" if "newline \<notin> set name"
  proof -
    from that d(1) have "newline \<notin> set (format_entry name desc)" by (rule format_entry_newline)
    from lines_from_line [OF this, of "[]" "[]"] show ?thesis
      by (simp add: file_lines_def entry_line_def)
  qed
  with d show ?thesis by simp
qed

theorem written_desc_one_line_witness:
  \<open>(lit ''N'', lit ''x y'') \<in> set (written_pairs page_multiline)
   \<and> newline \<notin> set (lit ''x y'') \<and> ends_clean (lit ''x y'')
   \<and> newline \<notin> set (lit ''N'')
   \<and> file_lines (entry_line (lit ''N'', lit ''x y'')) = [lit ''    {@"N", @"x y"},'']\<close>
proof -
  have h: \<open>(lit ''N'', lit ''x y'') \<in> set (written_pairs page_multiline)\<close>
    by (simp add: page_multiline_def script_defs)
  have n: "newline \<notin> set (lit ''N'')" by (simp add: lit_def newline_def)
  have f: \<open>format_entry (lit ''N'') (lit ''x y'') = lit ''    {@"N", @"x y"},''\<close>
    by (simp add: format_entry_def lit_def)
  from written_desc_one_line [OF h] n f h show ?thesis by simp
qed

text \<open>
  C9 as stated fails: on \<open>page_newline_name\<close> the run completes and the one entry occupies
  two lines, since the name is written as it was sliced.
\<close>

theorem entry_on_two_lines_counterexample:
  \<open>fst (script page_newline_name) = Completed
   \<and> written_pairs page_newline_name = [(lit ''A\<newline>B'', lit ''d'')]
   \<and> file_lines (entry_line (lit ''A\<newline>B'', lit ''d'')) = [lit ''    {@"A'', lit ''B", @"d"},'']\<close>
  by (simp add: page_newline_name_def script_defs)

section \<open>The format of the file\<close>

lemma completed_file_contents:
  assumes "fst (script page) = Completed"
  shows "snd (script page) =
      py_print header [] @ concat (map entry_line (written_pairs page)) @ py_print footer []"
  using assms by (simp add: script_file py_print_def)

lemma completed_file_lines:
  assumes "fst (script page) = Completed"
    and names: "\<forall>nd \<in> set (written_pairs page). newline \<notin> set (fst nd)"
  shows "file_lines (snd (script page)) =
      header # map (\<lambda>nd. format_entry (fst nd) (snd nd)) (written_pairs page) @ [footer]"
proof -
  let ?ls = "header # map (\<lambda>nd. format_entry (fst nd) (snd nd)) (written_pairs page) @ [footer]"
  have cat: "snd (script page) = concat (map (\<lambda>l. l @ [newline]) ?ls)"
  proof -
    have "entry_line = (\<lambda>nd. format_entry (fst nd) (snd nd) @ [newline])"
      by (rule ext) (simp add: entry_line_def)
    then show ?thesis
      unfolding completed_file_contents [OF assms(1)] by (simp add: py_print_def comp_def)
  qed
  have "\<forall>l \<in> set ?ls. newline \<notin> set l"
  proof
    fix l assume "l \<in> set ?ls"
    then consider "l = header" | "l = footer"
      | nd where "nd \<in> set (written_pairs page)" "l = format_entry (fst nd) (snd nd)"
      by auto
    then show "newline \<notin> set l"
    proof cases
      case 1
      then show ?thesis by (simp add: header_footer_newline)
    next
      case 2
      then show ?thesis by (simp add: header_footer_newline)
    next
      case 3
      from 3(1) have "(fst nd, snd nd) \<in> set (written_pairs page)" by simp
      from written_pair_desc(1) [OF this] names 3 show ?thesis
        by (simp add: format_entry_newline)
    qed
  qed
  from lines_from_lines [OF this] show ?thesis unfolding file_lines_def cat .
qed

lemma entry_line_fun: "entry_line = (\<lambda>nd. format_entry (fst nd) (snd nd) @ [newline])"
  by (rule ext) (simp add: entry_line_def)

text \<open>
  C6 (as amended). When the script completes, the file is the header line, then for each
  written pair in order the text \<^verbatim>\<open>    {@"name", @"desc"},\<close> and a newline, then the line
  \<^verbatim>\<open>};\<close>. When no written name contains a newline, the lines of the file are the header,
  one line for each pair, and the closing line.
\<close>

theorem output_format:
  assumes "fst (script page) = Completed"
  shows \<open>snd (script page) =
      lit ''NSString *GameDescriptions[][2] = {'' @ [newline]
      @ concat (map (\<lambda>nd. lit ''    {@"'' @ fst nd @ lit ''", @"'' @ snd nd @ lit ''"},'' @ [newline])
          (written_pairs page))
      @ lit ''};'' @ [newline]
    \<and> ((\<forall>nd \<in> set (written_pairs page). newline \<notin> set (fst nd)) \<longrightarrow>
        file_lines (snd (script page)) =
          lit ''NSString *GameDescriptions[][2] = {''
          # map (\<lambda>nd. lit ''    {@"'' @ fst nd @ lit ''", @"'' @ snd nd @ lit ''"},'')
              (written_pairs page)
          @ [lit ''};''])\<close>
  using completed_file_contents [OF assms] completed_file_lines [OF assms]
  by (simp add: header_def footer_def format_entry_def py_print_def entry_line_fun)

theorem output_format_witness:
  \<open>fst (script page_multiline) = Completed
   \<and> written_pairs page_multiline = [(lit ''N'', lit ''x y'')]
   \<and> snd (script page_multiline) =
       lit ''NSString *GameDescriptions[][2] = {'' @ [newline]
       @ lit ''    {@"N", @"x y"},'' @ [newline]
       @ lit ''};'' @ [newline]
   \<and> file_lines (snd (script page_multiline)) =
       [lit ''NSString *GameDescriptions[][2] = {'', lit ''    {@"N", @"x y"},'', lit ''};'']\<close>
proof -
  have h: "fst (script page_multiline) = Completed"
    by (simp add: page_multiline_def script_defs)
  have w: \<open>written_pairs page_multiline = [(lit ''N'', lit ''x y'')]\<close>
    by (simp add: page_multiline_def script_defs)
  have n: "\<forall>nd \<in> set (written_pairs page_multiline). newline \<notin> set (fst nd)"
    unfolding w by (simp add: lit_def newline_def)
  from output_format [OF h] n
  have \<open>snd (script page_multiline) =
      lit ''NSString *GameDescriptions[][2] = {'' @ [newline]
      @ concat (map (\<lambda>nd. lit ''    {@"'' @ fst nd @ lit ''", @"'' @ snd nd @ lit ''"},'' @ [newline])
          (written_pairs page_multiline))
      @ lit ''};'' @ [newline]\<close>
    and \<open>file_lines (snd (script page_multiline)) =
          lit ''NSString *GameDescriptions[][2] = {''
          # map (\<lambda>nd. lit ''    {@"'' @ fst nd @ lit ''", @"'' @ snd nd @ lit ''"},'')
              (written_pairs page_multiline)
          @ [lit ''};'']\<close>
    by blast+
  then show ?thesis unfolding w using h by (simp add: lit_def)
qed

text \<open>
  C6 as stated fails: on \<open>page_two_puzzles\<close> the run completes with two pairs and the file
  has three lines between the header and the closing line.
\<close>

theorem more_lines_than_pairs_counterexample:
  \<open>fst (script page_two_puzzles) = Completed
   \<and> written_pairs page_two_puzzles = [(lit ''A'', lit ''d''), (lit ''\<newline>'', lit ''e'')]
   \<and> file_lines (snd (script page_two_puzzles)) =
       [lit ''NSString *GameDescriptions[][2] = {'', lit ''    {@"A", @"d"},'',
        lit ''    {@"'', lit ''", @"e"},'', lit ''};'']\<close>
  by (simp add: page_two_puzzles_def script_defs)


section \<open>One entry for each marker\<close>

lemma count_occurrences_None: "py_find s sub = None \<Longrightarrow> count_occurrences s sub = 0"
proof (induction s)
  case Nil
  then show ?case by (simp split: if_splits)
next
  case (Cons c cs)
  then show ?case by (simp split: if_splits)
qed

lemma count_occurrences_first:
  "py_find s sub = Some i \<Longrightarrow> count_occurrences s sub = count_occurrences (drop i s) sub"
proof (induction s arbitrary: i)
  case Nil
  then show ?case by simp
next
  case (Cons c cs)
  show ?case
  proof (cases "prefix sub (c # cs)")
    case True
    with Cons.prems show ?thesis by simp
  next
    case False
    with Cons.prems obtain k where k: "py_find cs sub = Some k" "i = Suc k" by auto
    with Cons.IH [OF k(1)] False show ?thesis by simp
  qed
qed

lemma count_occurrences_skip:
  "sub \<noteq> [] \<Longrightarrow> hd sub \<notin> set t \<Longrightarrow> count_occurrences (t @ rest) sub = count_occurrences rest sub"
proof (induction t)
  case Nil
  then show ?case by simp
next
  case (Cons x t)
  then have "\<not> prefix sub (x # t @ rest)" by (cases sub) auto
  with Cons show ?case by simp
qed

lemma count_occurrences_prefix:
  assumes "sub \<noteq> []" "hd sub \<notin> set (tl sub)" "prefix sub s"
  shows "count_occurrences s sub = Suc (count_occurrences (drop (length sub) s) sub)"
proof -
  from assms(3) obtain rest where s: "s = sub @ rest" by (auto simp: prefix_def)
  from assms(1) obtain a t where sub: "sub = a # t" by (cases sub) auto
  with assms(2) have "hd sub \<notin> set t" by simp
  from count_occurrences_skip [OF assms(1) this, of rest]
  have "count_occurrences (t @ rest) sub = count_occurrences rest sub" .
  moreover have "count_occurrences s sub = Suc (count_occurrences (t @ rest) sub)"
    using assms(3) unfolding s sub by simp
  ultimately show ?thesis by (simp add: s)
qed

lemma py_split_length:
  "sep \<noteq> [] \<Longrightarrow> hd sep \<notin> set (tl sep) \<Longrightarrow>
     length (py_split s sep) = Suc (count_occurrences s sep)"
proof (induction s sep rule: py_split.induct)
  case (1 s sep)
  note sep = "1.prems"
  show ?case
  proof (cases "py_find s sep")
    case None
    then show ?thesis by (simp add: py_split_None count_occurrences_None)
  next
    case (Some i)
    from py_find_prefix [OF Some] have "prefix sep (drop i s)" .
    from count_occurrences_prefix [OF sep this]
    have "count_occurrences (drop i s) sep = Suc (count_occurrences (drop (i + length sep) s) sep)"
      by (simp add: add.commute)
    with count_occurrences_first [OF Some]
    have "count_occurrences s sep = Suc (count_occurrences (drop (i + length sep) s) sep)"
      by simp
    moreover have "length (py_split s sep) = Suc (length (py_split (drop (i + length sep) s) sep))"
      using Some sep(1) by (simp add: py_split_Some)
    moreover note "1.IH" [OF Some sep(1) sep]
    ultimately show ?thesis by simp
  qed
qed

lemma span_sep_no_overlap: "span_sep \<noteq> []" "hd span_sep \<notin> set (tl span_sep)"
  by (simp_all add: span_sep_def lit_def)

lemma count_occurrences_card:
  "count_occurrences s sub = card {i. i \<le> length s \<and> prefix sub (drop i s)}"
proof (induction s)
  case Nil
  have "{i. i \<le> length ([] :: str) \<and> prefix sub (drop i [])} = (if sub = [] then {0} else {})"
    by auto
  then show ?case by simp
next
  case (Cons c cs)
  let ?A = "{i. i \<le> length cs \<and> prefix sub (drop i cs)}"
  have "{i. i \<le> length (c # cs) \<and> prefix sub (drop i (c # cs))}
      = (if prefix sub (c # cs) then {0} else {}) \<union> Suc ` ?A"
  proof (rule set_eqI)
    fix i
    show "i \<in> {i. i \<le> length (c # cs) \<and> prefix sub (drop i (c # cs))}
      \<longleftrightarrow> i \<in> (if prefix sub (c # cs) then {0} else {}) \<union> Suc ` ?A"
      by (cases i) (auto simp: image_iff)
  qed
  moreover have "finite ?A" by simp
  moreover have "card (Suc ` ?A) = card ?A" by (simp add: card_image)
  ultimately show ?case using Cons.IH by (simp add: card_insert_if)
qed

text \<open>
  C8 (as amended). When the script completes, the number of entries written is the number
  of occurrences of \<^verbatim>\<open><span class="puzzle">\<close> in the page: the text before the first
  occurrence gives no entry, and each later piece gives exactly one entry, in order. An
  entry is what one call of \<^verbatim>\<open>print\<close> at line 14 writes; when no written name contains a
  newline, each entry is one line, and the file has that many lines and the two lines of
  the header and the end. No two occurrences of the marker overlap, so the pieces of
  \<^verbatim>\<open>split\<close> are one more than the positions at which the marker starts
  (\<open>count_occurrences_card\<close>).
\<close>

theorem entries_match_occurrences:
  assumes "fst (script page) = Completed"
  shows "length (written_pairs page) = count_occurrences page span_sep
    \<and> map process_puzzle (drop 1 (py_split page span_sep)) = map Inr (written_pairs page)
    \<and> ((\<forall>nd \<in> set (written_pairs page). newline \<notin> set (fst nd)) \<longrightarrow>
        length (file_lines (snd (script page))) = count_occurrences page span_sep + 2)"
proof -
  let ?ps = "drop 1 (py_split page span_sep)"
  from assms have len: "length (entries ?ps) = length ?ps"
    by (simp add: script_outcome loop_completed)
  have "length ?ps = count_occurrences page span_sep"
    using py_split_length [OF span_sep_no_overlap, of page] by simp
  with len have count: "length (written_pairs page) = count_occurrences page span_sep"
    by (simp add: written_pairs_def)
  moreover from loop_entries_prefix [of ?ps] len
  have "map process_puzzle ?ps = map Inr (written_pairs page)"
    by (simp add: written_pairs_def)
  moreover have "length (file_lines (snd (script page))) = count_occurrences page span_sep + 2"
    if "\<forall>nd \<in> set (written_pairs page). newline \<notin> set (fst nd)"
    using completed_file_lines [OF assms that] count by simp
  ultimately show ?thesis by blast
qed

theorem entries_match_occurrences_witness:
  \<open>fst (script page_plain) = Completed
   \<and> written_pairs page_plain = [(lit ''A'', lit ''d''), (lit ''B'', lit ''e'')]
   \<and> count_occurrences page_plain span_sep = 2
   \<and> length (file_lines (snd (script page_plain))) = 4\<close>
proof -
  have h: "fst (script page_plain) = Completed"
    by (simp add: page_plain_def script_defs)
  have w: "written_pairs page_plain = [(lit ''A'', lit ''d''), (lit ''B'', lit ''e'')]"
    by (simp add: page_plain_def script_defs)
  have n: "\<forall>nd \<in> set (written_pairs page_plain). newline \<notin> set (fst nd)"
    unfolding w by (simp add: lit_def newline_def)
  from entries_match_occurrences [OF h] n
  have "length (written_pairs page_plain) = count_occurrences page_plain span_sep"
    and "length (file_lines (snd (script page_plain))) = count_occurrences page_plain span_sep + 2"
    by blast+
  with h w show ?thesis by simp
qed

text \<open>
  C8 as stated fails: on \<open>page_blank_name\<close> the marker occurs once, the run completes, and
  the one entry is written on three lines.
\<close>

theorem more_lines_than_markers_counterexample:
  \<open>fst (script page_blank_name) = Completed
   \<and> count_occurrences page_blank_name span_sep = 1
   \<and> file_lines (snd (script page_blank_name)) =
       [lit ''NSString *GameDescriptions[][2] = {'', lit ''    {@"'', [], lit ''", @"d"},'',
        lit ''};'']\<close>
  by (simp add: page_blank_name_def script_defs)


section \<open>The transformation of a description\<close>

lemma py_rstrip_strip_trailing: "py_rstrip s = strip_trailing s"
proof (induction s)
  case Nil
  then show ?case by (simp add: py_rstrip_def)
next
  case (Cons c cs)
  have empty: "(strip_trailing cs = []) = (\<forall>x \<in> set cs. py_isspace x)"
    using Cons.IH [symmetric] by (simp add: py_rstrip_def)
  show ?case
  proof (cases "\<forall>x \<in> set cs. py_isspace x")
    case True
    then have "py_rstrip (c # cs) = rev (dropWhile py_isspace [c])"
      by (simp add: py_rstrip_def dropWhile_append)
    with True empty show ?thesis by simp
  next
    case False
    then have "py_rstrip (c # cs) = c # py_rstrip cs"
      by (simp add: py_rstrip_def dropWhile_append)
    moreover from False empty obtain x xs where "strip_trailing cs = x # xs"
      by (cases "strip_trailing cs") auto
    ultimately show ?thesis using Cons.IH by simp
  qed
qed

lemma substitute_code_gt_None: "py_find s code_gt = None \<Longrightarrow> substitute_code_gt s = s"
proof (induction s)
  case Nil
  then show ?case by simp
next
  case (Cons c cs)
  then show ?case by (simp split: if_splits)
qed

lemma code_gt_nonempty: "code_gt \<noteq> []"
  using lit_simps(6) by auto

lemma substitute_code_gt_Some:
  "py_find s code_gt = Some i \<Longrightarrow>
     substitute_code_gt s = take i s @ gt @ substitute_code_gt (drop (i + length code_gt) s)"
proof (induction s arbitrary: i)
  case Nil
  then show ?case by (simp add: code_gt_nonempty)
next
  case (Cons c cs)
  show ?case
  proof (cases "prefix code_gt (c # cs)")
    case True
    with Cons.prems show ?thesis by (simp add: lit_simps)
  next
    case False
    with Cons.prems obtain k where k: "py_find cs code_gt = Some k" "i = Suc k" by auto
    with Cons.IH [OF k(1)] False show ?thesis by simp
  qed
qed

lemma py_replace_code_gt: "py_replace s code_gt gt = substitute_code_gt s"
proof (induction s code_gt gt rule: py_replace.induct)
  case (1 s)
  show ?case
  proof (cases "py_find s code_gt")
    case None
    then show ?thesis by (simp add: py_replace_None substitute_code_gt_None)
  next
    case (Some i)
    note nonempty = code_gt_nonempty
    from "1.hyps" [OF Some nonempty] Some nonempty show ?thesis
      by (simp add: py_replace_Some substitute_code_gt_Some)
  qed
qed




section \<open>The name\<close>

lemma py_index_first_at:
  assumes "py_index s sub start = Inr j" "sub \<noteq> []"
  shows "first_at s sub start j"
proof -
  from assms obtain i where i: "py_find (drop start s) sub = Some i" and j: "j = start + i"
    by (auto simp: py_index_def split: if_splits option.splits)
  from py_find_prefix [OF i] have pre: "prefix sub (drop j s)" by (simp add: j add.commute)
  from py_find_bound [OF i] assms(2) have "j < length s" by (cases sub) (auto simp: j)
  moreover have "\<not> prefix sub (drop k s)" if "k < j" "start \<le> k" for k
  proof -
    from that have "k - start < i" by (simp add: j; arith)
    from py_find_first [OF i this] that show ?thesis by simp
  qed
  ultimately show ?thesis using pre by (simp add: first_at_def j)
qed

lemma py_slice_between:
  assumes "j \<le> length s"
  shows "py_slice s (i + 1) j = between s i j"
proof -
  have "drop (i + 1) (take j s) = drop (i + 1) (take j (map (\<lambda>k. s ! k) [0..<length s]))"
    by (simp add: map_nth)
  also have "\<dots> = map (\<lambda>k. s ! k) (drop (i + 1) (take j [0..<length s]))"
    by (simp add: take_map drop_map)
  also have "drop (i + 1) (take j [0..<length s]) = [i + 1..<j]"
    using assms by simp
  finally show ?thesis by (simp add: py_slice_def between_def)
qed

lemma first_at_unique:
  assumes "first_at s sub start i" "first_at s sub start j"
  shows "i = j"
proof (rule ccontr)
  assume "i \<noteq> j"
  then consider "i < j" | "j < i" by arith
  then show False using assms by cases (auto simp: first_at_def)
qed

lemma extract_name_spec:
  assumes "extract_name r = Inr name"
  shows "\<exists>r1 i j. py_getitem r 1 = Inr r1 \<and> first_at r1 gt 0 i \<and> first_at r1 lt 1 j
    \<and> name = between r1 i j"
proof -
  from assms obtain r1 i j where r1: "py_getitem r 1 = Inr r1"
    and i: "py_index r1 gt 0 = Inr i" and j: "py_index r1 lt 1 = Inr j"
    and name: "name = py_slice r1 (i + 1) j"
    by (auto simp: extract_name_def split: sum.splits)
  have "first_at r1 gt 0 i" using i by (rule py_index_first_at) (simp add: lit_simps)
  moreover have fj: "first_at r1 lt 1 j" using j by (rule py_index_first_at) (simp add: lit_simps)
  moreover from fj have "j \<le> length r1" by (simp add: first_at_def)
  then have "name = between r1 i j" unfolding name by (rule py_slice_between)
  ultimately show ?thesis using r1 by blast
qed

text \<open>
  C10. Every written name is the part of the second piece of its puzzle, split at
  \<^verbatim>\<open><tr>\<close>, that lies strictly between the first \<^verbatim>\<open>>\<close> of that piece and the first
  \<^verbatim>\<open><\<close> found in it at an index of at least 1 (empty when that \<^verbatim>\<open><\<close> does not come after
  the \<^verbatim>\<open>>\<close>), and the file holds these code points as they are, with nothing replaced,
  stripped or checked: after the header line and the entries before it, the file goes on
  with \<^verbatim>\<open>    {@"\<close>, this part of the piece, \<^verbatim>\<open>", @"\<close>, the description and \<^verbatim>\<open>"},\<close>.
\<close>

theorem written_name_is_slice:
  assumes "k < length (written_pairs page)"
  shows \<open>\<exists>r1 i j.
      py_getitem (py_split (drop 1 (py_split page span_sep) ! k) tr_sep) 1 = Inr r1
    \<and> first_at r1 gt 0 i \<and> first_at r1 lt 1 j
    \<and> fst (written_pairs page ! k) = between r1 i j
    \<and> snd (script page) =
        lit ''NSString *GameDescriptions[][2] = {'' @ [newline]
        @ concat (map entry_line (take k (written_pairs page)))
        @ lit ''    {@"'' @ between r1 i j @ lit ''", @"'' @ snd (written_pairs page ! k)
        @ lit ''"},'' @ [newline]
        @ concat (map entry_line (drop (Suc k) (written_pairs page)))
        @ (if fst (script page) = Completed then lit ''};'' @ [newline] else [])\<close>
proof -
  let ?ps = "drop 1 (py_split page span_sep)"
  let ?wp = "written_pairs page"
  let ?nd = "?wp ! k"
  from assms have k: "k < length (entries ?ps)" by (simp add: written_pairs_def)
  with entries_length_le [of ?ps] have k': "k < length ?ps" by simp
  have "map process_puzzle (take (length (entries ?ps)) ?ps) ! k = map Inr (entries ?ps) ! k"
    by (simp only: loop_entries_prefix)
  with k k' have "process_puzzle (?ps ! k) = Inr (fst ?nd, snd ?nd)"
    by (simp add: written_pairs_def)
  from process_puzzle_Inr(1) [OF this]
  have "extract_name (py_split (?ps ! k) tr_sep) = Inr (fst ?nd)" .
  from extract_name_spec [OF this] obtain r1 i j where
    r1: "py_getitem (py_split (?ps ! k) tr_sep) 1 = Inr r1"
    and ij: "first_at r1 gt 0 i" "first_at r1 lt 1 j" and name: "fst ?nd = between r1 i j"
    by blast
  from name have line: \<open>entry_line ?nd =
      lit ''    {@"'' @ between r1 i j @ lit ''", @"'' @ snd ?nd @ lit ''"},'' @ [newline]\<close>
    by (simp add: entry_line_def format_entry_def)
  from assms have "?wp = take k ?wp @ ?nd # drop (Suc k) ?wp" by (rule id_take_nth_drop)
  then have "concat (map entry_line ?wp) =
      concat (map entry_line (take k ?wp)) @ entry_line ?nd
      @ concat (map entry_line (drop (Suc k) ?wp))"
    by (metis concat.simps(2) concat_append list.simps(9) map_append)
  with line have \<open>snd (script page) =
        lit ''NSString *GameDescriptions[][2] = {'' @ [newline]
        @ concat (map entry_line (take k ?wp))
        @ lit ''    {@"'' @ between r1 i j @ lit ''", @"'' @ snd ?nd
        @ lit ''"},'' @ [newline]
        @ concat (map entry_line (drop (Suc k) ?wp))
        @ (if fst (script page) = Completed then lit ''};'' @ [newline] else [])\<close>
    by (simp add: script_file py_print_def header_def footer_def)
  with r1 ij name show ?thesis by blast
qed

theorem written_name_is_slice_witness:
  \<open>0 < length (written_pairs page_raw_name)
   \<and> py_getitem (py_split (drop 1 (py_split page_raw_name span_sep) ! 0) tr_sep) 1
       = Inr (lit ''<b> "N" \<newline><'')
   \<and> first_at (lit ''<b> "N" \<newline><'') gt 0 2 \<and> first_at (lit ''<b> "N" \<newline><'') lt 1 9
   \<and> fst (written_pairs page_raw_name ! 0) = between (lit ''<b> "N" \<newline><'') 2 9
   \<and> between (lit ''<b> "N" \<newline><'') 2 9 = lit '' "N" \<newline>''
   \<and> snd (script page_raw_name) =
       lit ''NSString *GameDescriptions[][2] = {'' @ [newline]
       @ lit ''    {@" "N" \<newline>", @"d"},'' @ [newline]
       @ lit ''};'' @ [newline]\<close>
proof -
  let ?R = \<open>lit ''<b> "N" \<newline><''\<close>
  have h: "0 < length (written_pairs page_raw_name)"
    by (simp add: page_raw_name_def script_defs)
  have c: "fst (script page_raw_name) = Completed"
    by (simp add: page_raw_name_def script_defs)
  have w: \<open>written_pairs page_raw_name = [(lit '' "N" \<newline>'', lit ''d'')]\<close>
    by (simp add: page_raw_name_def script_defs)
  have r1: "py_getitem (py_split (drop 1 (py_split page_raw_name span_sep) ! 0) tr_sep) 1 = Inr ?R"
    by (simp add: page_raw_name_def script_defs)
  have "py_index ?R gt 0 = Inr 2" by (simp add: script_defs)
  then have fi: "first_at ?R gt 0 2" by (rule py_index_first_at) (simp add: lit_simps)
  have "py_index ?R lt 1 = Inr 9" by (simp add: script_defs)
  then have fj: "first_at ?R lt 1 9" by (rule py_index_first_at) (simp add: lit_simps)
  have b: \<open>between ?R 2 9 = lit '' "N" \<newline>''\<close>
    by (simp add: between_def lit_def upt_rec)
  from written_name_is_slice [OF h] obtain r1' i j where
    "py_getitem (py_split (drop 1 (py_split page_raw_name span_sep) ! 0) tr_sep) 1 = Inr r1'"
    "first_at r1' gt 0 i" "first_at r1' lt 1 j"
    "fst (written_pairs page_raw_name ! 0) = between r1' i j"
    and contents: \<open>snd (script page_raw_name) =
        lit ''NSString *GameDescriptions[][2] = {'' @ [newline]
        @ concat (map entry_line (take 0 (written_pairs page_raw_name)))
        @ lit ''    {@"'' @ between r1' i j @ lit ''", @"'' @ snd (written_pairs page_raw_name ! 0)
        @ lit ''"},'' @ [newline]
        @ concat (map entry_line (drop (Suc 0) (written_pairs page_raw_name)))
        @ (if fst (script page_raw_name) = Completed then lit ''};'' @ [newline] else [])\<close>
    by blast
  with r1 have "first_at ?R gt 0 i" "first_at ?R lt 1 j"
    and name: "fst (written_pairs page_raw_name ! 0) = between ?R i j"
    and r1': "r1' = ?R"
    by simp_all
  with fi fj have ij: "i = 2" "j = 9" by (auto dest: first_at_unique)
  with name have n: "fst (written_pairs page_raw_name ! 0) = between ?R 2 9" by simp
  from contents have \<open>snd (script page_raw_name) =
       lit ''NSString *GameDescriptions[][2] = {'' @ [newline]
       @ lit ''    {@" "N" \<newline>", @"d"},'' @ [newline]
       @ lit ''};'' @ [newline]\<close>
    unfolding r1' ij b w c by (simp add: lit_def)
  with h r1 fi fj n b show ?thesis by simp
qed


section \<open>How a run ends\<close>

lemma py_getitem_Inl: "py_getitem xs k = Inl e \<Longrightarrow> e = IndexError \<and> length xs \<le> k"
  by (simp add: py_getitem_def split: if_splits)

lemma py_getitem_Inr: "py_getitem xs k = Inr x \<Longrightarrow> k < length xs \<and> x = xs ! k"
  by (auto simp: py_getitem_def split: if_splits)

lemma py_index_Inl:
  assumes "py_index s sub start = Inl e" "sub \<noteq> []"
  shows "e = ValueError \<and> \<not> py_in sub (drop start s)"
  using assms by (auto simp: py_index_def py_in_def split: if_splits option.splits)

lemma extract_name_Inl:
  assumes "extract_name r = Inl e"
  shows "(e = IndexError \<and> length r < 2)
    \<or> (e = ValueError \<and> 1 < length r \<and> (\<not> py_in gt (r ! 1) \<or> \<not> py_in lt (drop 1 (r ! 1))))"
proof (cases "py_getitem r 1")
  case (Inl e')
  with assms py_getitem_Inl [OF Inl] show ?thesis by (auto simp: extract_name_def)
next
  case (Inr r1)
  from py_getitem_Inr [OF Inr] have r1: "1 < length r" "r1 = r ! 1" by simp_all
  show ?thesis
  proof (cases "py_index r1 gt 0")
    case (Inl e')
    from py_index_Inl [OF Inl] have "e' = ValueError" "\<not> py_in gt r1" by (simp_all add: lit_simps)
    with assms Inr Inl r1 show ?thesis by (simp add: extract_name_def)
  next
    case i: (Inr i)
    show ?thesis
    proof (cases "py_index r1 lt 1")
      case (Inl e')
      from py_index_Inl [OF Inl] have "e' = ValueError" "\<not> py_in lt (drop 1 r1)"
        by (simp_all add: lit_simps)
      with assms Inr i Inl r1 show ?thesis by (simp add: extract_name_def)
    next
      case (Inr j)
      with assms \<open>py_getitem r 1 = Inr r1\<close> i show ?thesis by (simp add: extract_name_def)
    qed
  qed
qed

lemma raw_desc_Inl:
  assumes "raw_desc r = Inl e"
  shows "(e = IndexError \<and> length r < 5)
    \<or> (e = ValueError \<and> 4 < length r \<and> (\<not> py_in gt (r ! 4) \<or> \<not> py_in td_close (drop 2 (r ! 4))))"
proof (cases "py_getitem r 4")
  case (Inl e')
  with assms py_getitem_Inl [OF Inl] show ?thesis by (auto simp: raw_desc_def)
next
  case (Inr r4)
  from py_getitem_Inr [OF Inr] have r4: "4 < length r" "r4 = r ! 4" by simp_all
  show ?thesis
  proof (cases "py_index r4 gt 0")
    case (Inl e')
    from py_index_Inl [OF Inl] have "e' = ValueError" "\<not> py_in gt r4" by (simp_all add: lit_simps)
    with assms Inr Inl r4 show ?thesis by (simp add: raw_desc_def)
  next
    case i: (Inr i)
    show ?thesis
    proof (cases "py_index r4 td_close 2")
      case (Inl e')
      have "td_close \<noteq> []" using lit_simps(9) by auto
      from py_index_Inl [OF Inl this] have "e' = ValueError" "\<not> py_in td_close (drop 2 r4)"
        by simp_all
      with assms Inr i Inl r4 show ?thesis by (simp add: raw_desc_def)
    next
      case (Inr j)
      with assms \<open>py_getitem r 4 = Inr r4\<close> i show ?thesis by (simp add: raw_desc_def)
    qed
  qed
qed

lemma extract_desc_Inl: "extract_desc r = Inl e \<Longrightarrow> raw_desc r = Inl e"
  by (simp add: extract_desc_def Let_def split: sum.splits)

lemma check_desc_Inl:
  "check_desc desc = Inl e \<Longrightarrow> e = AssertionError desc \<and> (py_in lt desc \<or> py_in dquote desc)"
  by (auto simp: check_desc_def split: if_splits)

text \<open>Why one puzzle raises.\<close>

lemma process_puzzle_Inl:
  assumes "process_puzzle p = Inl e"
  shows "(e = IndexError \<and> length (py_split p tr_sep) < 5)
    \<or> (e = ValueError \<and> 1 < length (py_split p tr_sep)
        \<and> (\<not> py_in gt (py_split p tr_sep ! 1) \<or> \<not> py_in lt (drop 1 (py_split p tr_sep ! 1))))
    \<or> (e = ValueError \<and> 4 < length (py_split p tr_sep)
        \<and> (\<not> py_in gt (py_split p tr_sep ! 4)
            \<or> \<not> py_in td_close (drop 2 (py_split p tr_sep ! 4))))
    \<or> (\<exists>d. e = AssertionError d \<and> extract_desc (py_split p tr_sep) = Inr d
        \<and> (py_in lt d \<or> py_in dquote d))"
proof -
  let ?r = "py_split p tr_sep"
  show ?thesis
  proof (cases "extract_name ?r")
    case (Inl e')
    with assms have "e' = e" by (simp add: process_puzzle_def)
    with extract_name_Inl [OF Inl] show ?thesis by auto
  next
    case name: (Inr name)
    show ?thesis
    proof (cases "extract_desc ?r")
      case (Inl e')
      with assms name have "e' = e" by (simp add: process_puzzle_def)
      with raw_desc_Inl [OF extract_desc_Inl [OF Inl]] show ?thesis by auto
    next
      case desc: (Inr desc)
      with assms name obtain e' where c: "check_desc desc = Inl e'" and "e' = e"
        by (auto simp: process_puzzle_def split: sum.splits)
      with check_desc_Inl [OF c] desc show ?thesis by auto
    qed
  qed
qed

text \<open>
  C2 (as amended). For every page the script ends in one of four ways: it completes; it
  aborts at one of the two assertions, on a description that contains \<^verbatim>\<open><\<close> or
  \<^verbatim>\<open>"\<close>; it aborts with an \<^verbatim>\<open>IndexError\<close> from \<^verbatim>\<open>r[1]\<close> or \<^verbatim>\<open>r[4]\<close>, on a puzzle
  with fewer than five pieces; or it aborts with a \<^verbatim>\<open>ValueError\<close> from \<^verbatim>\<open>index\<close>, on a
  puzzle in which a searched marker is missing from \<^verbatim>\<open>r[1]\<close> or \<^verbatim>\<open>r[4]\<close>. The model is
  total, so every run ends.
\<close>

theorem script_failure_modes:
  "fst (script page) = Completed
   \<or> (\<exists>d. fst (script page) = Raised (AssertionError d) \<and> (py_in lt d \<or> py_in dquote d))
   \<or> (fst (script page) = Raised IndexError
       \<and> (\<exists>p \<in> set (drop 1 (py_split page span_sep)). length (py_split p tr_sep) < 5))
   \<or> (fst (script page) = Raised ValueError
       \<and> (\<exists>p \<in> set (drop 1 (py_split page span_sep)).
            (1 < length (py_split p tr_sep)
              \<and> (\<not> py_in gt (py_split p tr_sep ! 1) \<or> \<not> py_in lt (drop 1 (py_split p tr_sep ! 1))))
          \<or> (4 < length (py_split p tr_sep)
              \<and> (\<not> py_in gt (py_split p tr_sep ! 4)
                  \<or> \<not> py_in td_close (drop 2 (py_split p tr_sep ! 4))))))"
proof (cases "fst (script page)")
  case Completed
  then show ?thesis by simp
next
  case (Raised e)
  let ?ps = "drop 1 (py_split page span_sep)"
  from Raised have "fst (loop ?ps (py_print header [])) = Raised e" by (simp add: script_outcome)
  from loop_raised [OF this] obtain p where p: "p \<in> set ?ps" "process_puzzle p = Inl e"
    using nth_mem by blast
  from process_puzzle_Inl [OF p(2)] p(1) Raised show ?thesis by auto
qed

theorem script_failure_modes_witness:
  "fst (script page_no_marker) = Raised ValueError
   \<and> (\<exists>p \<in> set (drop 1 (py_split page_no_marker span_sep)).
        (1 < length (py_split p tr_sep)
          \<and> (\<not> py_in gt (py_split p tr_sep ! 1) \<or> \<not> py_in lt (drop 1 (py_split p tr_sep ! 1))))
      \<or> (4 < length (py_split p tr_sep)
          \<and> (\<not> py_in gt (py_split p tr_sep ! 4)
              \<or> \<not> py_in td_close (drop 2 (py_split p tr_sep ! 4)))))"
proof -
  have h: "fst (script page_no_marker) = Raised ValueError"
    by (simp add: page_no_marker_def script_defs)
  from script_failure_modes [of page_no_marker] show ?thesis unfolding h by simp
qed

text \<open>
  C2 as stated fails: \<open>page_no_rows\<close> ends in an uncaught \<^verbatim>\<open>IndexError\<close> and
  \<open>page_no_marker\<close> in an uncaught \<^verbatim>\<open>ValueError\<close>, each leaving the header line in the file.
\<close>

theorem other_exceptions_counterexample:
  "script page_no_rows = (Raised IndexError, py_print header [])
   \<and> script page_no_marker = (Raised ValueError, py_print header [])"
  by (simp add: page_no_rows_def page_no_marker_def script_defs)

lemma extract_desc_cases:
  "extract_desc r = (case raw_desc r of Inl e \<Rightarrow> Inl e | Inr raw \<Rightarrow> Inr (spec_transform raw))"
proof (cases "raw_desc r")
  case (Inl e)
  then show ?thesis by (simp add: extract_desc_def)
next
  case (Inr raw)
  have "py_replace raw [newline] (lit '' '') = newlines_to_spaces raw"
    by (simp add: lit_simps(4) py_replace_single newlines_to_spaces_def)
  with Inr show ?thesis
    by (simp add: extract_desc_def spec_transform_def py_rstrip_strip_trailing py_replace_code_gt)
qed

lemma check_desc_chars:
  "(\<exists>e. check_desc d = Inl e) = (contains_char d CHR ''<'' \<or> contains_char d (CHR 0x22))"
  "check_desc d = Inl e \<Longrightarrow> e = AssertionError d"
  by (auto simp: check_desc_def contains_char_def lit_simps py_in_single split: if_splits)

lemma loop_assertion_iff:
  "(\<exists>d. fst (loop ps f) = Raised (AssertionError d))
     = (\<exists>raw \<in> set (raw_descs ps).
          contains_char (spec_transform raw) CHR ''<''
        \<or> contains_char (spec_transform raw) (CHR 0x22))"
proof (induction ps arbitrary: f)
  case Nil
  then show ?case by simp
next
  case (Cons p ps)
  let ?r = "py_split p tr_sep"
  show ?case
  proof (cases "extract_name ?r")
    case (Inl e)
    then have "process_puzzle p = Inl e" by (simp add: process_puzzle_def)
    moreover from extract_name_Inl [OF Inl] have "\<forall>d. e \<noteq> AssertionError d" by auto
    ultimately show ?thesis using Inl by simp
  next
    case name: (Inr name)
    show ?thesis
    proof (cases "raw_desc ?r")
      case (Inl e)
      then have "extract_desc ?r = Inl e" by (simp add: extract_desc_cases)
      with name have "process_puzzle p = Inl e" by (simp add: process_puzzle_def)
      moreover from raw_desc_Inl [OF Inl] have "\<forall>d. e \<noteq> AssertionError d" by auto
      ultimately show ?thesis using name Inl by simp
    next
      case raw: (Inr raw)
      let ?d = "spec_transform raw"
      from raw have desc: "extract_desc ?r = Inr ?d" by (simp add: extract_desc_cases)
      show ?thesis
      proof (cases "check_desc ?d")
        case (Inl e)
        from check_desc_chars(2) [OF Inl] have e: "e = AssertionError ?d" .
        from Inl check_desc_chars(1) [of ?d]
        have bad: "contains_char ?d CHR ''<'' \<or> contains_char ?d (CHR 0x22)" by blast
        from name desc Inl have "process_puzzle p = Inl e" by (simp add: process_puzzle_def)
        with e bad name raw show ?thesis by auto
      next
        case (Inr u)
        with check_desc_chars(1) [of ?d]
        have good: "\<not> (contains_char ?d CHR ''<'' \<or> contains_char ?d (CHR 0x22))" by auto
        from name desc Inr have "process_puzzle p = Inr (name, ?d)"
          by (simp add: process_puzzle_def)
        with good name raw Cons.IH [of "py_print (format_entry name ?d) f"]
        show ?thesis by simp
      qed
    qed
  qed
qed

lemma loop_assertion_message:
  "fst (loop ps f) = Raised (AssertionError d) \<Longrightarrow>
     raw_descs ps \<noteq> [] \<and> d = spec_transform (last (raw_descs ps))"
proof (induction ps arbitrary: f)
  case Nil
  then show ?case by simp
next
  case (Cons p ps)
  let ?r = "py_split p tr_sep"
  show ?case
  proof (cases "process_puzzle p")
    case (Inl e)
    with Cons.prems have e: "e = AssertionError d" by simp
    from process_puzzle_Inl [OF Inl] e
    have desc: "extract_desc ?r = Inr d" by auto
    then obtain raw where raw: "raw_desc ?r = Inr raw" "d = spec_transform raw"
      by (auto simp: extract_desc_cases split: sum.splits)
    have "\<exists>name. extract_name ?r = Inr name"
    proof (cases "extract_name ?r")
      case bad: (Inl e')
      then have "process_puzzle p = Inl e'" by (simp add: process_puzzle_def)
      with Inl e have "e' = AssertionError d" by simp
      with extract_name_Inl [OF bad] show ?thesis by simp
    next
      case (Inr name)
      then show ?thesis by simp
    qed
    then obtain name where "extract_name ?r = Inr name" by blast
    with raw Inl show ?thesis by simp
  next
    case (Inr nd)
    obtain name desc where nd: "nd = (name, desc)" by (cases nd)
    from Inr nd Cons.prems have "fst (loop ps (py_print (format_entry name desc) f)) = Raised (AssertionError d)"
      by simp
    from Cons.IH [OF this] have ih: "raw_descs ps \<noteq> []" "d = spec_transform (last (raw_descs ps))"
      by simp_all
    from Inr nd process_puzzle_Inr [of p name desc]
    have "extract_name ?r = Inr name" "extract_desc ?r = Inr desc" by simp_all
    then obtain raw where "raw_desc ?r = Inr raw"
      by (auto simp: extract_desc_cases split: sum.splits)
    with \<open>extract_name ?r = Inr name\<close> Inr ih show ?thesis by simp
  qed
qed

text \<open>
  C4. A run aborts at an assertion if and only if, for one of the slices that the run
  extracts at line 10, the description made from it (every newline replaced by a space,
  the whitespace at the end removed, \<^verbatim>\<open><code>&gt;</code>\<close> replaced by \<^verbatim>\<open>>\<close>) still
  contains \<^verbatim>\<open><\<close> or contains \<^verbatim>\<open>"\<close>. The message of the assertion is then the description
  made from the last slice extracted.
\<close>

theorem assertion_abort_iff:
  \<open>((\<exists>d. fst (script page) = Raised (AssertionError d))
      = (\<exists>raw \<in> set (extracted_raw_descs page).
           contains_char (spec_transform raw) CHR ''<''
         \<or> contains_char (spec_transform raw) CHR ''"''))
   \<and> (\<forall>d. fst (script page) = Raised (AssertionError d) \<longrightarrow>
         d = spec_transform (last (extracted_raw_descs page)))\<close>
  using loop_assertion_message
  by (simp add: script_outcome extracted_raw_descs_def loop_assertion_iff)

theorem assertion_abort_iff_witness:
  \<open>fst (script page_markup) = Raised (AssertionError (lit ''say "x"''))
   \<and> extracted_raw_descs page_markup =
       [lit ''a <code>&gt;</code> b\<newline>'', lit ''say "x" \<newline>'']
   \<and> contains_char (lit ''a <code>&gt;</code> b\<newline>'') CHR ''<''
   \<and> spec_transform (lit ''a <code>&gt;</code> b\<newline>'') = lit ''a > b''
   \<and> spec_transform (lit ''say "x" \<newline>'') = lit ''say "x"''
   \<and> contains_char (spec_transform (lit ''say "x" \<newline>'')) CHR ''"''
   \<and> (\<exists>raw \<in> set (extracted_raw_descs page_markup).
           contains_char (spec_transform raw) CHR ''<''
         \<or> contains_char (spec_transform raw) CHR ''"'')\<close>
proof -
  have h: \<open>fst (script page_markup) = Raised (AssertionError (lit ''say "x"''))\<close>
    by (simp add: page_markup_def script_defs)
  have e: \<open>extracted_raw_descs page_markup =
       [lit ''a <code>&gt;</code> b\<newline>'', lit ''say "x" \<newline>'']\<close>
    by (simp add: page_markup_def script_defs)
  have c: \<open>contains_char (lit ''a <code>&gt;</code> b\<newline>'') CHR ''<''\<close>
    by (simp add: contains_char_def lit_def)
  have t1: \<open>spec_transform (lit ''a <code>&gt;</code> b\<newline>'') = lit ''a > b''\<close>
    by (simp add: spec_transform_def newlines_to_spaces_def code_gt_def lit_def newline_def
        py_isspace_def)
  have t2: \<open>spec_transform (lit ''say "x" \<newline>'') = lit ''say "x"''\<close>
    by (simp add: spec_transform_def newlines_to_spaces_def code_gt_def lit_def newline_def
        py_isspace_def)
  have q: \<open>contains_char (spec_transform (lit ''say "x" \<newline>'')) CHR ''"''\<close>
    unfolding t2 by (simp add: contains_char_def lit_def)
  from h have "\<exists>d. fst (script page_markup) = Raised (AssertionError d)" by blast
  with assertion_abort_iff [of page_markup]
  have "\<exists>raw \<in> set (extracted_raw_descs page_markup).
           contains_char (spec_transform raw) CHR ''<''
         \<or> contains_char (spec_transform raw) (CHR 0x22)" by simp
  with h e c t1 t2 q show ?thesis by simp
qed


section \<open>Running again\<close>

lemma script_on_script: "script_on old page = script page"
  by (simp add: script_on_def script_def py_open_w_def)



end
